theory Spec2Isabelle
  imports Main "HOL-Library.Multiset"
begin

section \<open>Text cleaning: \<open>clean_doc\<close> of get_revision_history.py\<close>

text \<open>
  Python strings are modelled as \<open>string\<close>. The character classes below are the ASCII
  part of what Python's \<open>str\<close> methods and the \<open>re\<close> module accept: \<open>\s\<close> is the
  tab, line feed, vertical tab, form feed, carriage return, the four separators
  0x1C to 0x1F and the space; \<open>isnumeric\<close> and \<open>[0-9]\<close> are the ten decimal digits.
\<close>

definition is_space :: "char \<Rightarrow> bool" where
  "is_space c = (c \<in> {CHR 0x09, CHR 0x0A, CHR 0x0B, CHR 0x0C, CHR 0x0D,
                        CHR 0x1C, CHR 0x1D, CHR 0x1E, CHR 0x1F, CHR 0x20})"

definition is_digit :: "char \<Rightarrow> bool" where
  "is_digit c = (c \<in> set ''0123456789'')"

text \<open>\<open>doc.find(substr)\<close>: the lowest index where \<open>substr\<close> starts, or -1.\<close>

fun str_find :: "string \<Rightarrow> string \<Rightarrow> int" where
  "str_find [] sub = (if sub = [] then 0 else - 1)"
| "str_find (c # cs) sub =
     (if take (length sub) (c # cs) = sub then 0
      else (let r = str_find cs sub in if r = - 1 then - 1 else r + 1))"

text \<open>The nested helper of \<open>clean_doc\<close>: a flag and the document cut at the marker.\<close>

definition remove_everything_after :: "string \<Rightarrow> string \<Rightarrow> nat \<times> string" where
  "remove_everything_after doc substr =
     (let substr_idx = str_find doc substr
      in if substr_idx \<noteq> - 1 then (1, take (nat substr_idx) doc) else (0, doc))"

text \<open>
  \<open>WhitespaceTokenizer().tokenize\<close> splits at runs of whitespace and discards empty
  pieces. The first argument is the token being read.
\<close>

fun tokenize_from :: "string \<Rightarrow> string \<Rightarrow> string list" where
  "tokenize_from cur [] = (if cur = [] then [] else [cur])"
| "tokenize_from cur (c # cs) =
     (if is_space c then (if cur = [] then tokenize_from [] cs else cur # tokenize_from [] cs)
      else tokenize_from (cur @ [c]) cs)"

definition tokenize :: "string \<Rightarrow> string list" where
  "tokenize doc = tokenize_from [] doc"

text \<open>\<open>token.isnumeric()\<close>: at least one character, and all of them numeric.\<close>

definition isnumeric :: "string \<Rightarrow> bool" where
  "isnumeric token = (token \<noteq> [] \<and> list_all is_digit token)"

text \<open>\<open>" ".join(tokens)\<close>.\<close>

fun join_space :: "string list \<Rightarrow> string" where
  "join_space [] = []"
| "join_space [t] = t"
| "join_space (t # u # ts) = t @ CHR '' '' # join_space (u # ts)"

text \<open>
  A match of \<open>\[[0-9]+\]\<close> at the head of the text: the text after the match, if there
  is one. The digits are matched greedily and the closing bracket is not a digit, so
  the match exists exactly when the longest run of digits is not empty and a closing
  bracket follows it.
\<close>

fun match_citation :: "string \<Rightarrow> string option" where
  "match_citation [] = None"
| "match_citation (c # cs) =
     (if c = CHR ''[''
      then (case dropWhile is_digit cs of
              [] \<Rightarrow> None
            | d # rest \<Rightarrow> if takeWhile is_digit cs \<noteq> [] \<and> d = CHR '']'' then Some rest else None)
      else None)"

lemma match_citation_shorter: "match_citation s = Some rest \<Longrightarrow> length rest < length s"
proof (cases s)
  case Nil
  assume "match_citation s = Some rest"
  with Nil show ?thesis by simp
next
  case (Cons c cs)
  assume m: "match_citation s = Some rest"
  have "length (dropWhile is_digit cs) \<le> length cs"
    by (rule length_dropWhile_le)
  with m Cons show ?thesis
    by (auto split: if_splits list.splits)
qed

text \<open>\<open>re.sub(citation_regex, '', doc)\<close>: every match, leftmost first, is deleted.\<close>

function re_sub_citation :: "string \<Rightarrow> string" where
  "re_sub_citation [] = []"
| "re_sub_citation (c # cs) =
     (case match_citation (c # cs) of
        Some rest \<Rightarrow> re_sub_citation rest
      | None \<Rightarrow> c # re_sub_citation cs)"
  by pat_completeness auto
termination
  by (relation "measure length")
    (auto dest: match_citation_shorter simp del: match_citation.simps)

text \<open>Steps 3 and 4 of the cleaning, on the text left by the truncations.\<close>

definition remove_numbers :: "string \<Rightarrow> string" where
  "remove_numbers doc = join_space (filter (\<lambda>token. \<not> isnumeric token) (tokenize doc))"

definition clean_tokens :: "string \<Rightarrow> string" where
  "clean_tokens doc = re_sub_citation (remove_numbers doc)"

definition truncate_sections :: "string \<Rightarrow> string" where
  "truncate_sections doc =
     (let (removed_notes, doc1) = remove_everything_after doc ''Notes\<newline>'';
          (removed_links, doc2) = remove_everything_after doc1 ''External links\<newline>'';
          (removed_refs, doc3) = remove_everything_after doc2 ''References\<newline>''
      in doc3)"

definition clean_doc :: "string \<Rightarrow> string" where
  "clean_doc doc = clean_tokens (truncate_sections doc)"

text \<open>What a token of the tokenizer is: not empty, and free of whitespace.\<close>

definition spaceless :: "string \<Rightarrow> bool" where
  "spaceless t = (t \<noteq> [] \<and> list_all (\<lambda>c. \<not> is_space c) t)"

section \<open>Pass 1: \<open>get_all_revision_ids\<close> and \<open>write_revisions\<close>\<close>

text \<open>The exceptions that the modelled code and its libraries raise.\<close>

datatype error =
    KeyError | StopIteration | ValueError | RequestException
  | IncompleteJSONError | JSONError | ParserError | BrokenProcessPool

subsection \<open>\<open>datetime.strptime(timestamp, "%Y-%m-%dT%H:%M:%SZ")\<close>\<close>

record datetime =
  year :: nat
  month :: nat
  day :: nat
  hour :: nat
  minute :: nat
  second :: nat

definition number :: "string \<Rightarrow> nat" where
  "number ds = foldl (\<lambda>n c. 10 * n + (of_char c - 48)) 0 (filter is_digit ds)"

text \<open>
  A directive that matches one or two characters, followed by a literal of the format.
  The literals are not digits, so the directive has to match everything up to the
  literal: two characters are tried first, as the alternatives of the regular
  expressions of \<open>_strptime\<close> are ordered, then one.
\<close>

definition field :: "(string \<Rightarrow> bool) \<Rightarrow> char list \<Rightarrow> string \<Rightarrow> (nat \<times> string) option" where
  "field directive literal s =
     (if 3 \<le> length s \<and> directive (take 2 s) \<and> s ! 2 \<in> set literal
      then Some (number (take 2 s), drop 3 s)
      else if 2 \<le> length s \<and> directive (take 1 s) \<and> s ! 1 \<in> set literal
      then Some (number (take 1 s), drop 2 s)
      else None)"

text \<open>
  \<open>%m\<close> is \<open>1[0-2]|0[1-9]|[1-9]\<close>, \<open>%d\<close> is \<open>3[01]|[12]\d|0[1-9]|[1-9]| [1-9]\<close>,
  \<open>%H\<close> is \<open>2[0-3]|[0-1]\d|\d\<close>, \<open>%M\<close> is \<open>[0-5]\d|\d\<close> and \<open>%S\<close> is
  \<open>6[0-1]|[0-5]\d|\d\<close>, each on a text of one or two characters.
\<close>

definition directive_m :: "string \<Rightarrow> bool" where
  "directive_m t = (list_all is_digit t \<and> 1 \<le> number t \<and> number t \<le> 12)"

definition directive_d :: "string \<Rightarrow> bool" where
  "directive_d t =
     (list_all is_digit t \<and> 1 \<le> number t \<and> number t \<le> 31
      \<or> length t = 2 \<and> t ! 0 = CHR '' '' \<and> is_digit (t ! 1) \<and> t ! 1 \<noteq> CHR ''0'')"

definition directive_H :: "string \<Rightarrow> bool" where
  "directive_H t = (list_all is_digit t \<and> number t \<le> 23)"

definition directive_M :: "string \<Rightarrow> bool" where
  "directive_M t = (list_all is_digit t \<and> number t \<le> 59)"

definition directive_S :: "string \<Rightarrow> bool" where
  "directive_S t = (list_all is_digit t \<and> number t \<le> 61)"

definition is_leap :: "nat \<Rightarrow> bool" where
  "is_leap y = (y mod 4 = 0 \<and> (y mod 100 \<noteq> 0 \<or> y mod 400 = 0))"

definition days_in_month :: "nat \<Rightarrow> nat \<Rightarrow> nat" where
  "days_in_month y m =
     (if m = 2 then (if is_leap y then 29 else 28)
      else if m \<in> {4, 6, 9, 11} then 30 else 31)"

text \<open>
  The constructor of \<open>datetime\<close> raises \<open>ValueError\<close> for the year 0, a day that the
  month does not have and a second above 59; the regular expressions have bounded the
  other fields.
\<close>

definition make_datetime :: "nat \<Rightarrow> nat \<Rightarrow> nat \<Rightarrow> nat \<Rightarrow> nat \<Rightarrow> nat \<Rightarrow> error + datetime" where
  "make_datetime y m d H M S =
     (if 1 \<le> y \<and> y \<le> 9999 \<and> 1 \<le> m \<and> m \<le> 12 \<and> 1 \<le> d \<and> d \<le> days_in_month y m
         \<and> H \<le> 23 \<and> M \<le> 59 \<and> S \<le> 59
      then Inr \<lparr>year = y, month = m, day = d, hour = H, minute = M, second = S\<rparr>
      else Inl ValueError)"

text \<open>
  The format is compiled with \<open>re.IGNORECASE\<close>, so the literals \<open>T\<close> and \<open>Z\<close> match in
  either case; \<open>%Y\<close> is exactly four digits; text left after the \<open>Z\<close> is an error.
\<close>

definition strptime :: "string \<Rightarrow> error + datetime" where
  "strptime s =
     (if 5 \<le> length s \<and> list_all is_digit (take 4 s) \<and> s ! 4 = CHR ''-''
      then (case field directive_m ''-'' (drop 5 s) of
              None \<Rightarrow> Inl ValueError
            | Some (m, s1) \<Rightarrow>
          (case field directive_d ''Tt'' s1 of
              None \<Rightarrow> Inl ValueError
            | Some (d, s2) \<Rightarrow>
          (case field directive_H '':'' s2 of
              None \<Rightarrow> Inl ValueError
            | Some (H, s3) \<Rightarrow>
          (case field directive_M '':'' s3 of
              None \<Rightarrow> Inl ValueError
            | Some (M, s4) \<Rightarrow>
          (case field directive_S ''Zz'' s4 of
              None \<Rightarrow> Inl ValueError
            | Some (S, s5) \<Rightarrow>
                if s5 = [] then make_datetime (number (take 4 s)) m d H M S
                else Inl ValueError)))))
      else Inl ValueError)"

subsection \<open>\<open>int(dt_object.timestamp())\<close>\<close>

text \<open>
  \<open>toordinal\<close>, as \<open>datetime.py\<close> computes it: the first day of the year 1 is day 1.
\<close>

definition days_before_year :: "nat \<Rightarrow> nat" where
  "days_before_year y = (y - 1) * 365 + (y - 1) div 4 - (y - 1) div 100 + (y - 1) div 400"

definition days_before_month :: "nat \<Rightarrow> nat \<Rightarrow> nat" where
  "days_before_month y m = sum_list (map (days_in_month y) [1..<m])"

definition toordinal :: "datetime \<Rightarrow> nat" where
  "toordinal dt = days_before_year (year dt) + days_before_month (year dt) (month dt) + day dt"

text \<open>
  The seconds between 1970-01-01T00:00:00 and the fields of the value, read as they
  stand: \<open>(self - epoch) // timedelta(0, 1)\<close>, the ordinal of the epoch being 719163.
\<close>

definition wall_seconds :: "datetime \<Rightarrow> int" where
  "wall_seconds dt =
     (int (toordinal dt) - 719163) * 86400
       + int (hour dt) * 3600 + int (minute dt) * 60 + int (second dt)"

text \<open>
  \<open>strptime\<close> returns a naive value (the \<open>Z\<close> of the format is a literal, not \<open>%z\<close>),
  and \<open>timestamp()\<close> of a naive value takes its fields as the local time of the machine.
  The local time zone is outside the program: \<open>mktime\<close> is the platform's conversion
  from the seconds of a local wall clock to the seconds since the epoch. On a machine
  whose local time is UTC it is the identity.
\<close>

definition timestamp_of :: "(int \<Rightarrow> int) \<Rightarrow> datetime \<Rightarrow> int" where
  "timestamp_of mktime dt = mktime (wall_seconds dt)"

subsection \<open>The persisted collection file\<close>

text \<open>
  A dictionary with the keys \<open>timestamp\<close> and \<open>content\<close>: the entries that pass 1 builds
  from the API (\<open>string revision\<close>, the timestamp as the API wrote it) and the entries
  it persists (\<open>int revision\<close>, the timestamp in seconds).
\<close>

record 'a revision =
  timestamp :: 'a
  content :: string

text \<open>
  The file is the sequence of what was written to it: the text of an \<open>f.write\<close>, or the
  text that \<open>json.dump\<close> produces for a revision entry, which is kept as the entry.
\<close>

datatype wevent = Wr string | Dump "int revision"

type_synonym collection_file = "wevent list"

text \<open>
  \<open>write_revisions\<close>. An exception leaves in the file what was written before it.
\<close>

fun write_revisions :: "(int \<Rightarrow> int) \<Rightarrow> collection_file \<Rightarrow> string revision list \<Rightarrow> collection_file \<times> (error + unit)" where
  "write_revisions mktime f [] = (f, Inr ())"
| "write_revisions mktime f (revision # rest) =
     (case strptime (timestamp revision) of
        Inl e \<Rightarrow> (f, Inl e)
      | Inr dt_object \<Rightarrow>
          (let unix_timestamp = timestamp_of mktime dt_object;
               revision_entry = \<lparr>timestamp = unix_timestamp, content = content revision\<rparr>;
               f1 = f @ [Dump revision_entry];
               f2 = (if rest \<noteq> [] then f1 @ [Wr '',\<newline>''] else f1)
           in write_revisions mktime f2 rest))"

subsection \<open>The API and the harvest loop\<close>

text \<open>
  A revision of a response is a dictionary that may lack the keys \<open>timestamp\<close> and
  \<open>*\<close>. Of a response the loop reads \<open>data['query']['pages']\<close> (\<open>None\<close> when one of the
  two keys is missing), of its first page the key \<open>revisions\<close> (\<open>None\<close> when missing),
  and the key \<open>continue\<close> with its key \<open>rvcontinue\<close>.
\<close>

record api_revision =
  rev_timestamp :: "string option"
  rev_star :: "string option"

record api_response =
  query_pages :: "api_revision list option list option"
  continue :: "string option option"

text \<open>
  The server is the list of its replies to the successive requests, in order: a
  response, or the exception of \<open>requests.get\<close> or \<open>response.json()\<close>. The continuation
  token goes back to the server with the next request and is not read otherwise. A
  request that the list has no reply for fails.
\<close>

type_synonym server = "(error + api_response) list"

definition first_page_revisions :: "api_response \<Rightarrow> error + api_revision list" where
  "first_page_revisions data =
     (case query_pages data of
        None \<Rightarrow> Inl KeyError
      | Some [] \<Rightarrow> Inl StopIteration
      | Some (page # _) \<Rightarrow> (case page of None \<Rightarrow> Inl KeyError | Some revisions \<Rightarrow> Inr revisions))"

definition has_required_keys :: "api_revision \<Rightarrow> bool" where
  "has_required_keys revision = (rev_timestamp revision \<noteq> None \<and> rev_star revision \<noteq> None)"

fun collect_revisions_data :: "api_revision list \<Rightarrow> string revision list" where
  "collect_revisions_data [] = []"
| "collect_revisions_data (revision # revisions) =
     (if has_required_keys revision
      then \<lparr>timestamp = the (rev_timestamp revision), content = the (rev_star revision)\<rparr>
             # collect_revisions_data revisions
      else collect_revisions_data revisions)"

text \<open>
  The \<open>while True\<close> loop. Its state is the replies still to come, the continuation
  token in \<open>params\<close>, \<open>revisions_written\<close> and the file; it returns the file and either
  the exception that ended the run or the final count.
\<close>

fun harvest_loop ::
  "(int \<Rightarrow> int) \<Rightarrow> server \<Rightarrow> string option \<Rightarrow> nat \<Rightarrow> collection_file \<Rightarrow> collection_file \<times> (error + nat)" where
  "harvest_loop mktime [] rvcontinue revisions_written f = (f, Inl RequestException)"
| "harvest_loop mktime (reply # replies) rvcontinue revisions_written f =
     (case reply of
        Inl e \<Rightarrow> (f, Inl e)
      | Inr data \<Rightarrow>
     (case first_page_revisions data of
        Inl e \<Rightarrow> (f, Inl e)
      | Inr revisions \<Rightarrow>
          (let revisions_data = collect_revisions_data revisions;
               revisions_written' = revisions_written + length revisions_data
           in case write_revisions mktime f revisions_data of
                (f1, Inl e) \<Rightarrow> (f1, Inl e)
              | (f1, Inr _) \<Rightarrow>
                  (case continue data of
                     None \<Rightarrow> (f1 @ [Wr ''\<newline>]''], Inr revisions_written')
                   | Some None \<Rightarrow> (f1, Inl KeyError)
                   | Some (Some token) \<Rightarrow>
                       harvest_loop mktime replies (Some token) revisions_written'
                         (f1 @ [Wr '',\<newline>''])))))"

definition get_all_revision_ids :: "(int \<Rightarrow> int) \<Rightarrow> server \<Rightarrow> collection_file \<times> (error + nat)" where
  "get_all_revision_ids mktime replies = harvest_loop mktime replies None 0 [Wr ''[\<newline>'']"

subsection \<open>What the file holds\<close>

text \<open>The records of a file, in the order they were written.\<close>

fun records :: "collection_file \<Rightarrow> int revision list" where
  "records [] = []"
| "records (Wr s # f) = records f"
| "records (Dump r # f) = r # records f"

text \<open>
  The file as JSON tokens: the brackets and commas of the written texts, JSON
  whitespace dropped, and one value for each dumped entry.
\<close>

datatype jtoken = JOpen | JComma | JClose | JValue "int revision" | JBad char

fun lex_text :: "string \<Rightarrow> jtoken list" where
  "lex_text [] = []"
| "lex_text (c # cs) =
     (if c \<in> set [CHR '' '', CHR 0x09, CHR 0x0A, CHR 0x0D] then lex_text cs
      else if c = CHR ''['' then JOpen # lex_text cs
      else if c = CHR '','' then JComma # lex_text cs
      else if c = CHR '']'' then JClose # lex_text cs
      else JBad c # lex_text cs)"

fun lex_file :: "collection_file \<Rightarrow> jtoken list" where
  "lex_file [] = []"
| "lex_file (Wr s # f) = lex_text s @ lex_file f"
| "lex_file (Dump r # f) = JValue r # lex_file f"

text \<open>
  A well-formed top-level array of entries: \<open>[\<close>, the values separated by single commas,
  \<open>]\<close>, and nothing after it.
\<close>

fun after_value :: "jtoken list \<Rightarrow> bool" where
  "after_value [JClose] = True"
| "after_value (JComma # JValue r # ts) = after_value ts"
| "after_value ts = False"

fun json_array :: "jtoken list \<Rightarrow> bool" where
  "json_array [JOpen, JClose] = True"
| "json_array (JOpen # JValue r # ts) = after_value ts"
| "json_array ts = False"

text \<open>
  How the server of claim C1 answers: every reply is a response with a first page that
  has its \<open>revisions\<close>, every reply but the last carries a continuation token, the last
  carries no \<open>continue\<close>; and the timestamps of the complete revisions are in the
  format of the API.
\<close>

fun page_revisions :: "error + api_response \<Rightarrow> api_revision list" where
  "page_revisions (Inl e) = []"
| "page_revisions (Inr data) = (case first_page_revisions data of Inl e \<Rightarrow> [] | Inr revs \<Rightarrow> revs)"

definition all_revisions :: "server \<Rightarrow> api_revision list" where
  "all_revisions replies = concat (map page_revisions replies)"

definition has_page :: "error + api_response \<Rightarrow> bool" where
  "has_page reply = (case reply of Inl e \<Rightarrow> False | Inr data \<Rightarrow> \<not> isl (first_page_revisions data))"

definition continues :: "error + api_response \<Rightarrow> bool" where
  "continues reply =
     (case reply of Inl e \<Rightarrow> False
      | Inr data \<Rightarrow> (case continue data of Some (Some token) \<Rightarrow> True | _ \<Rightarrow> False))"

definition is_last :: "error + api_response \<Rightarrow> bool" where
  "is_last reply = (case reply of Inl e \<Rightarrow> False | Inr data \<Rightarrow> continue data = None)"

fun complete_harvest :: "server \<Rightarrow> bool" where
  "complete_harvest [] = False"
| "complete_harvest [reply] = (has_page reply \<and> is_last reply)"
| "complete_harvest (reply # replies) =
     (has_page reply \<and> continues reply \<and> complete_harvest replies)"

definition api_timestamps :: "server \<Rightarrow> bool" where
  "api_timestamps replies =
     list_all (\<lambda>r. \<not> isl (strptime (timestamp r))) (collect_revisions_data (all_revisions replies))"

definition persisted :: "(int \<Rightarrow> int) \<Rightarrow> string revision \<Rightarrow> int revision" where
  "persisted mktime r =
     \<lparr>timestamp = (case strptime (timestamp r) of Inl e \<Rightarrow> 0 | Inr dt \<Rightarrow> timestamp_of mktime dt),
      content = content r\<rparr>"

text \<open>The tokens of the values that follow the first one, each after its comma.\<close>

definition sep_values :: "int revision list \<Rightarrow> jtoken list" where
  "sep_values rs = concat (map (\<lambda>r. [JComma, JValue r]) rs)"

text \<open>Every page brings at least one complete revision.\<close>

definition no_empty_page :: "server \<Rightarrow> bool" where
  "no_empty_page replies =
     list_all (\<lambda>reply. collect_revisions_data (page_revisions reply) \<noteq> []) replies"

text \<open>
  Two harvests of two pages. In the first, page 1 holds a complete revision and one
  without content; in the second, page 1 holds only a revision without content.
\<close>

definition two_pages :: server where
  "two_pages =
     [Inr \<lparr>query_pages = Some [Some
             [\<lparr>rev_timestamp = Some ''2020-01-01T00:00:00Z'', rev_star = Some ''a''\<rparr>,
              \<lparr>rev_timestamp = Some ''2020-01-01T12:00:00Z'', rev_star = None\<rparr>]],
           continue = Some (Some ''20200102000000|2'')\<rparr>,
      Inr \<lparr>query_pages = Some [Some
             [\<lparr>rev_timestamp = Some ''2020-01-02T00:00:00Z'', rev_star = Some ''b''\<rparr>]],
           continue = None\<rparr>]"

definition empty_first_page :: server where
  "empty_first_page =
     [Inr \<lparr>query_pages = Some [Some
             [\<lparr>rev_timestamp = Some ''2020-01-01T00:00:00Z'', rev_star = None\<rparr>]],
           continue = Some (Some ''20200102000000|2'')\<rparr>,
      Inr \<lparr>query_pages = Some [Some
             [\<lparr>rev_timestamp = Some ''2020-01-02T00:00:00Z'', rev_star = Some ''b''\<rparr>]],
           continue = None\<rparr>]"

section \<open>Pass 2: \<open>clean_revisions_in_batches\<close>\<close>

subsection \<open>\<open>ijson.items(file, 'item')\<close>\<close>

text \<open>
  The incremental parser, on the tokens of the file. \<open>next_item\<close> is one \<open>next()\<close> on
  the generator: it reads on until an element of the top-level array is complete
  (\<open>Some\<close>), the document has ended (\<open>None\<close>, the \<open>StopIteration\<close> of the generator), or
  the input is refused. The items are given out as they are completed; an input that
  ends before the closing bracket is refused only when its end is reached. A top-level
  value that is not an array has no items.
\<close>

datatype pstate = PStart | PFirst | PAfterValue | PAfterComma | PDone

fun next_item ::
  "pstate \<Rightarrow> jtoken list \<Rightarrow> error + (int revision option \<times> pstate \<times> jtoken list)" where
  "next_item PStart [] = Inl IncompleteJSONError"
| "next_item PStart (JOpen # ts) = next_item PFirst ts"
| "next_item PStart (JValue r # ts) = next_item PDone ts"
| "next_item PStart (t # ts) = Inl JSONError"
| "next_item PFirst [] = Inl IncompleteJSONError"
| "next_item PFirst (JClose # ts) = next_item PDone ts"
| "next_item PFirst (JValue r # ts) = Inr (Some r, PAfterValue, ts)"
| "next_item PFirst (t # ts) = Inl JSONError"
| "next_item PAfterValue [] = Inl IncompleteJSONError"
| "next_item PAfterValue (JComma # ts) = next_item PAfterComma ts"
| "next_item PAfterValue (JClose # ts) = next_item PDone ts"
| "next_item PAfterValue (t # ts) = Inl JSONError"
| "next_item PAfterComma [] = Inl IncompleteJSONError"
| "next_item PAfterComma (JValue r # ts) = Inr (Some r, PAfterValue, ts)"
| "next_item PAfterComma (t # ts) = Inl JSONError"
| "next_item PDone [] = Inr (None, PDone, [])"
| "next_item PDone (t # ts) = Inl JSONError"

text \<open>
  \<open>list(itertools.islice(json_parser, n))\<close>: up to \<open>n\<close> items; fewer when the generator
  ends; the exception of the generator when it raises, the items read so far lost.
\<close>

fun islice ::
  "nat \<Rightarrow> pstate \<times> jtoken list \<Rightarrow> error + (int revision list \<times> pstate \<times> jtoken list)" where
  "islice 0 p = Inr ([], p)"
| "islice (Suc n) p =
     (case next_item (fst p) (snd p) of
        Inl e \<Rightarrow> Inl e
      | Inr (None, p') \<Rightarrow> Inr ([], p')
      | Inr (Some r, p') \<Rightarrow>
          (case islice n p' of
             Inl e \<Rightarrow> Inl e
           | Inr (rs, p'') \<Rightarrow> Inr (r # rs, p'')))"

subsection \<open>\<open>process_chunk\<close> and \<open>clean_revision\<close>\<close>

text \<open>
  \<open>sorted\<close> is a stable sort, and the result of a stable sort is determined by the keys
  and the order of the input: \<open>sort_key\<close> computes it.
\<close>

definition process_chunk :: "int revision list \<Rightarrow> (int \<times> string) list" where
  "process_chunk chunk =
     map (\<lambda>entry. (timestamp entry, content entry)) (sort_key timestamp chunk)"

text \<open>
  \<open>mwparserfromhell.parse(content).strip_code()\<close> is the markup parser, a library: the
  parameter \<open>strip_code\<close>, which returns a text or raises.
\<close>

definition clean_revision ::
  "(string \<Rightarrow> error + string) \<Rightarrow> int \<times> string \<Rightarrow> error + int \<times> string" where
  "clean_revision strip_code timestamp_content =
     (case timestamp_content of
        (ts, text) \<Rightarrow>
          (case strip_code text of
             Inl e \<Rightarrow> Inl e
           | Inr plain \<Rightarrow> Inr (ts, clean_doc plain)))"

subsection \<open>\<open>executor.map\<close>\<close>

text \<open>
  The pool runs the tasks of one call in some order of completion, which the program
  does not control: the parameter \<open>order\<close>, a list of task indices. Every task
  completes; the tasks that \<open>order\<close> does not name complete last.
\<close>

definition completion_order :: "nat \<Rightarrow> nat list \<Rightarrow> nat list" where
  "completion_order n order =
     remdups (filter (\<lambda>i. i < n) order) @ filter (\<lambda>i. i \<notin> set order) [0..<n]"

text \<open>Each task that completes stores its result, or its exception, in its future.\<close>

definition run_workers ::
  "('a \<Rightarrow> error + 'b) \<Rightarrow> 'a list \<Rightarrow> nat list \<Rightarrow> (error + 'b) option list" where
  "run_workers fn tasks order =
     foldl (\<lambda>futures i. futures[i := Some (fn (tasks ! i))])
       (replicate (length tasks) None) (completion_order (length tasks) order)"

text \<open>
  \<open>list(executor.map(fn, tasks))\<close> reads the futures in the order of submission; the
  first exception met is raised. A future without a result is a worker that died.
\<close>

fun gather :: "(error + 'b) option list \<Rightarrow> error + 'b list" where
  "gather [] = Inr []"
| "gather (None # futures) = Inl BrokenProcessPool"
| "gather (Some (Inl e) # futures) = Inl e"
| "gather (Some (Inr v) # futures) =
     (case gather futures of Inl e \<Rightarrow> Inl e | Inr vs \<Rightarrow> Inr (v # vs))"

definition executor_map ::
  "('a \<Rightarrow> error + 'b) \<Rightarrow> 'a list \<Rightarrow> nat list \<Rightarrow> error + 'b list" where
  "executor_map fn tasks order = gather (run_workers fn tasks order)"

text \<open>The same, one task after the other: the results in order, or the first exception.\<close>

fun in_order :: "(error + 'b) list \<Rightarrow> error + 'b list" where
  "in_order [] = Inr []"
| "in_order (Inl e # rs) = Inl e"
| "in_order (Inr v # rs) = (case in_order rs of Inl e \<Rightarrow> Inl e | Inr vs \<Rightarrow> Inr (v # vs))"

subsection \<open>The loop over the chunks\<close>

text \<open>
  The loop ends because a chunk that is not empty has consumed input, which the two
  lemmas state. Its state is the parser, the chunk counter \<open>i\<close>, the revisions handed to
  the pool so far and \<open>clean_revisions\<close>. It returns the revisions handed to the pool,
  which is the cleaning work that was started, and the list it returns or the exception
  it raises. \<open>sched\<close> gives the order of completion in the pool for each chunk.
\<close>

lemma next_item_shorter:
  "next_item st ts = Inr (x, st', ts') \<Longrightarrow>
   length ts' \<le> length ts \<and> (x = None \<or> length ts' < length ts)"
  by (induction st ts rule: next_item.induct) auto

lemma islice_shorter:
  "islice n p = Inr (rs, p') \<Longrightarrow>
   length (snd p') \<le> length (snd p) \<and> (rs = [] \<or> length (snd p') < length (snd p))"
proof (induction n arbitrary: p rs p')
  case 0
  then show ?case by simp
next
  case (Suc n)
  show ?case
  proof (cases "next_item (fst p) (snd p)")
    case (Inl e)
    with Suc.prems show ?thesis by simp
  next
    case (Inr y)
    then obtain x st ts where y: "next_item (fst p) (snd p) = Inr (x, st, ts)"
      by (cases y) auto
    note sh = next_item_shorter [OF y]
    show ?thesis
    proof (cases x)
      case None
      with y Suc.prems show ?thesis using sh by auto
    next
      case (Some r)
      with y Suc.prems obtain rs' where
        i: "islice n (st, ts) = Inr (rs', p')" and "rs = r # rs'"
        by (auto split: sum.splits)
      from Suc.IH [OF i] sh Some show ?thesis by auto
    qed
  qed
qed

definition chunk_size :: nat where
  "chunk_size = 100"

function batches_loop ::
  "(string \<Rightarrow> error + string) \<Rightarrow> (nat \<Rightarrow> nat list) \<Rightarrow> pstate \<times> jtoken list \<Rightarrow> nat
     \<Rightarrow> (int \<times> string) list \<Rightarrow> (int \<times> string) list
     \<Rightarrow> (int \<times> string) list \<times> (error + (int \<times> string) list)" where
  "batches_loop strip_code sched json_parser i submitted clean_revisions =
     (case islice chunk_size json_parser of
        Inl e \<Rightarrow> (submitted, Inl e)
      | Inr (chunk, json_parser') \<Rightarrow>
          if chunk = [] then (submitted, Inr clean_revisions)
          else (let revisions = process_chunk chunk;
                    submitted' = submitted @ revisions
                in case executor_map (clean_revision strip_code) revisions (sched i) of
                     Inl e \<Rightarrow> (submitted', Inl e)
                   | Inr clean_results \<Rightarrow>
                       batches_loop strip_code sched json_parser' (i + 1) submitted'
                         (clean_revisions @ clean_results)))"
  by pat_completeness auto
termination
proof (relation "measure (\<lambda>(strip_code, sched, json_parser, i, submitted, clean_revisions).
    length (snd json_parser))", goal_cases)
  case 1
  show ?case by simp
next
  case (2 strip_code sched json_parser i submitted clean_revisions x2 chunk json_parser' revisions submitted' clean_results)
  then have "islice chunk_size json_parser = Inr (chunk, json_parser')" by simp
  from islice_shorter [OF this] 2 show ?case by simp
qed

definition clean_revisions_in_batches ::
  "(string \<Rightarrow> error + string) \<Rightarrow> (nat \<Rightarrow> nat list) \<Rightarrow> collection_file
     \<Rightarrow> (int \<times> string) list \<times> (error + (int \<times> string) list)" where
  "clean_revisions_in_batches strip_code sched f =
     batches_loop strip_code sched (PStart, lex_file f) 1 [] []"

declare batches_loop.simps [simp del]

subsection \<open>The driver\<close>

text \<open>
  What \<open>json.dump(clean_revisions, f, ...)\<close> writes: \<open>clean_revisions\<close> is a list of
  tuples, and a tuple is written as an array.
\<close>

datatype json = JInt int | JStr string | JArr "json list" | JObj "(string \<times> json) list"

definition dump_clean :: "(int \<times> string) list \<Rightarrow> json" where
  "dump_clean clean_revisions = JArr (map (\<lambda>(ts, text). JArr [JInt ts, JStr text]) clean_revisions)"

text \<open>
  The two files of a run, \<open><title>_<lang>.json\<close> and \<open><title>_<lang>_clean.json\<close>; the
  names differ for every title and language. \<open>None\<close> is a file that does not exist.
\<close>

record files =
  collection :: "collection_file option"
  corpus :: "json option"

text \<open>
  The body of \<open>__main__\<close>. An exception in pass 1 leaves the collection as far as it was
  written; the corpus file is opened only after pass 2 has returned.
\<close>

definition main ::
  "(int \<Rightarrow> int) \<Rightarrow> (string \<Rightarrow> error + string) \<Rightarrow> (nat \<Rightarrow> nat list) \<Rightarrow> server \<Rightarrow> files
     \<Rightarrow> files \<times> (error + unit)" where
  "main mktime strip_code sched replies fs =
     (case get_all_revision_ids mktime replies of
        (f, Inl e) \<Rightarrow> (fs\<lparr>collection := Some f\<rparr>, Inl e)
      | (f, Inr n) \<Rightarrow>
          (case clean_revisions_in_batches strip_code sched f of
             (submitted, Inl e) \<Rightarrow> (fs\<lparr>collection := Some f\<rparr>, Inl e)
           | (submitted, Inr clean_revisions) \<Rightarrow>
               (fs\<lparr>collection := Some f, corpus := Some (dump_clean clean_revisions)\<rparr>, Inr ())))"

text \<open>
  Inputs of the examples: a collection of 100 records that was not closed, the markup
  parser on a text without markup, and the page of the end-to-end scenario.
\<close>

definition hundred_records :: collection_file where
  "hundred_records =
     Wr ''[\<newline>'' # concat (replicate 99 [Dump \<lparr>timestamp = 0, content = ''a''\<rparr>, Wr '',\<newline>''])
       @ [Dump \<lparr>timestamp = 0, content = ''a''\<rparr>]"

definition plain_text :: "string \<Rightarrow> error + string" where
  "plain_text text = Inr text"

definition hello_page :: server where
  "hello_page =
     [Inr \<lparr>query_pages = Some [Some
             [\<lparr>rev_timestamp = Some ''2020-01-01T00:00:00Z'',
               rev_star = Some ''Hello [1] 2020 world''\<rparr>]],
           continue = None\<rparr>]"

text \<open>A collection file as pass 1 leaves it: empty, or starting with the opening bracket.\<close>

definition written_by_pass1 :: "collection_file \<Rightarrow> bool" where
  "written_by_pass1 f = (case f of [] \<Rightarrow> True | w # g \<Rightarrow> w = Wr ''[\<newline>'')"

section \<open>Properties of the text cleaning\<close>

subsection \<open>Truncation at the section markers\<close>

lemma str_find_ge: "- 1 \<le> str_find doc sub"
  by (induction doc) (auto simp: Let_def)

lemma cut_Nil: "snd (remove_everything_after [] m) = []"
  by (simp add: remove_everything_after_def)

lemma cut_Cons:
  "snd (remove_everything_after (c # d) m) =
     (if take (length m) (c # d) = m then [] else c # snd (remove_everything_after d m))"
proof -
  have "- 1 \<le> str_find d m" by (rule str_find_ge)
  then have "str_find d m \<noteq> - 1 \<Longrightarrow> nat (str_find d m + 1) = Suc (nat (str_find d m))"
    by linarith
  then show ?thesis
    by (auto simp: remove_everything_after_def Let_def)
qed

lemma cut_skip:
  assumes "m \<noteq> []" "hd m \<notin> set xs"
  shows "snd (remove_everything_after (xs @ post) m) = xs @ snd (remove_everything_after post m)"
  using assms
proof (induction xs)
  case Nil
  then show ?case by simp
next
  case (Cons x xs)
  have "take (length m) (x # xs @ post) \<noteq> m"
  proof
    assume "take (length m) (x # xs @ post) = m"
    then have "hd m = x" using Cons.prems(1) by (cases m) auto
    with Cons.prems(2) show False by simp
  qed
  with Cons show ?case by (simp add: cut_Cons)
qed

lemma take_append_marker:
  assumes "R \<noteq> []" "hd R \<notin> set (drop 1 m)" "xs \<noteq> []"
  shows "take (length m) (xs @ R @ post) = m \<longleftrightarrow> take (length m) xs = m"
proof
  assume a: "take (length m) xs = m"
  then have "length (take (length m) xs) = length m" by simp
  then have "length m \<le> length xs" by simp
  then show "take (length m) (xs @ R @ post) = m"
    using a by simp
next
  assume t: "take (length m) (xs @ R @ post) = m"
  show "take (length m) xs = m"
  proof (cases "length m \<le> length xs")
    case True
    with t show ?thesis by simp
  next
    case False
    then have lt: "length xs < length m" by simp
    from t have "m ! length xs = (xs @ R @ post) ! length xs"
      using lt by (metis nth_take)
    also have "\<dots> = hd R" using assms(1)
      by (cases R) (simp_all add: nth_append)
    finally have "m ! length xs = hd R" .
    moreover have "m ! length xs \<in> set (drop 1 m)"
    proof -
      have "0 < length xs" using assms(3) by simp
      then obtain k where k: "length xs = Suc k" by (cases "length xs") auto
      with lt have "k < length (drop 1 m)" by simp
      moreover have "drop 1 m ! k = m ! length xs" using k lt by simp
      ultimately show ?thesis by (metis nth_mem)
    qed
    ultimately show ?thesis using assms(2) by simp
  qed
qed

lemma cut_before_marker:
  assumes "m \<noteq> []" "R \<noteq> []" "hd m \<notin> set R" "hd R \<notin> set (drop 1 m)"
  shows "snd (remove_everything_after (pre @ R @ post) m) = snd (remove_everything_after pre m)
       \<or> (snd (remove_everything_after pre m) = pre
          \<and> snd (remove_everything_after (pre @ R @ post) m)
              = pre @ R @ snd (remove_everything_after post m))"
proof (induction pre)
  case Nil
  show ?case using cut_skip [OF assms(1) assms(3), of post] by (simp add: cut_Nil)
next
  case (Cons c pre)
  have eq: "take (length m) ((c # pre) @ R @ post) = m \<longleftrightarrow> take (length m) (c # pre) = m"
    by (rule take_append_marker [OF assms(2) assms(4)]) simp
  show ?case
  proof (cases "take (length m) (c # pre) = m")
    case True
    with eq show ?thesis by (simp add: cut_Cons)
  next
    case False
    with eq have "take (length m) (c # pre @ R @ post) \<noteq> m" by simp
    with False Cons.IH show ?thesis
      by (auto simp: cut_Cons)
  qed
qed

lemma cut_at_marker:
  assumes "R \<noteq> []" "hd R \<notin> set (drop 1 R)"
  shows "snd (remove_everything_after (pre @ R @ post) R) = snd (remove_everything_after pre R)"
proof (induction pre)
  case Nil
  have "take (length R) (R @ post) = R" by simp
  then show ?case using assms(1) by (cases R) (simp_all add: cut_Nil cut_Cons)
next
  case (Cons c pre)
  have eq: "take (length R) ((c # pre) @ R @ post) = R \<longleftrightarrow> take (length R) (c # pre) = R"
    by (rule take_append_marker [OF assms(1) assms(2)]) simp
  with Cons.IH show ?case by (simp add: cut_Cons)
qed

lemma cut_prefix: "take (length (snd (remove_everything_after d m))) d = snd (remove_everything_after d m)"
  by (induction d) (simp_all add: cut_Nil cut_Cons)

lemma truncate_sections_snd:
  "truncate_sections doc =
     snd (remove_everything_after
           (snd (remove_everything_after (snd (remove_everything_after doc ''Notes\<newline>''))
              ''External links\<newline>'')) ''References\<newline>'')"
  by (simp add: truncate_sections_def split_beta Let_def)

lemma truncate_sections_before_references:
  "truncate_sections (pre @ ''References\<newline>'' @ post) = truncate_sections pre"
proof -
  let ?R = "''References\<newline>''"
  let ?N = "''Notes\<newline>''"
  let ?E = "''External links\<newline>''"
  let ?cut = "\<lambda>d m. snd (remove_everything_after d m)"
  have N: "?cut (pre @ ?R @ post) ?N = ?cut pre ?N
      \<or> (?cut pre ?N = pre \<and> ?cut (pre @ ?R @ post) ?N = pre @ ?R @ ?cut post ?N)"
    by (rule cut_before_marker) simp_all
  have E: "\<And>post'. ?cut (pre @ ?R @ post') ?E = ?cut pre ?E
      \<or> (?cut pre ?E = pre \<and> ?cut (pre @ ?R @ post') ?E = pre @ ?R @ ?cut post' ?E)"
    by (rule cut_before_marker) simp_all
  have R: "\<And>post'. ?cut (pre @ ?R @ post') ?R = ?cut pre ?R"
    by (rule cut_at_marker) simp_all
  from N show ?thesis
  proof
    assume "?cut (pre @ ?R @ post) ?N = ?cut pre ?N"
    then show ?thesis by (simp only: truncate_sections_snd)
  next
    assume n: "?cut pre ?N = pre \<and> ?cut (pre @ ?R @ post) ?N = pre @ ?R @ ?cut post ?N"
    from E [of "?cut post ?N"] show ?thesis
    proof
      assume "?cut (pre @ ?R @ ?cut post ?N) ?E = ?cut pre ?E"
      with n show ?thesis by (simp only: truncate_sections_snd)
    next
      assume e: "?cut pre ?E = pre \<and>
        ?cut (pre @ ?R @ ?cut post ?N) ?E = pre @ ?R @ ?cut (?cut post ?N) ?E"
      with n R [of "?cut (?cut post ?N) ?E"] show ?thesis
        by (simp only: truncate_sections_snd)
    qed
  qed
qed

lemma cut_take: "\<exists>k. snd (remove_everything_after d m) = take k d"
proof (cases "str_find d m = - 1")
  case True
  then have "snd (remove_everything_after d m) = take (length d) d"
    by (simp add: remove_everything_after_def)
  then show ?thesis ..
next
  case False
  then have "snd (remove_everything_after d m) = take (nat (str_find d m)) d"
    by (simp add: remove_everything_after_def)
  then show ?thesis ..
qed

lemma truncate_sections_take: "\<exists>k. truncate_sections d = take k d"
proof -
  obtain k1 where k1: "snd (remove_everything_after d ''Notes\<newline>'') = take k1 d"
    using cut_take by blast
  obtain k2 where k2: "snd (remove_everything_after (take k1 d) ''External links\<newline>'')
      = take k2 (take k1 d)"
    using cut_take by blast
  obtain k3 where k3: "snd (remove_everything_after (take k2 (take k1 d)) ''References\<newline>'')
      = take k3 (take k2 (take k1 d))"
    using cut_take by blast
  have "truncate_sections d = take (min k3 (min k2 k1)) d"
    unfolding truncate_sections_snd k1 k2 k3 by (simp only: take_take)
  then show ?thesis ..
qed

lemma truncate_sections_prefix: "take (length (truncate_sections d)) d = truncate_sections d"
proof -
  obtain k where k: "truncate_sections d = take k d"
    using truncate_sections_take by blast
  show ?thesis unfolding k by (simp add: min_def)
qed

text \<open>
  C4: a document that holds \<open>"References\n"\<close> is cut at or before that marker,
  whatever the other markers do: the text that reaches the later cleaning steps is a
  prefix of the text before the marker, and the cleaned document is the one obtained
  from the text before the marker alone, so nothing from the marker onward has any
  effect on the output.
\<close>

theorem clean_doc_cuts_at_references:
  "clean_doc (pre @ ''References\<newline>'' @ post) = clean_doc pre
   \<and> take (length (truncate_sections (pre @ ''References\<newline>'' @ post))) pre
       = truncate_sections (pre @ ''References\<newline>'' @ post)"
  unfolding clean_doc_def truncate_sections_before_references
  using truncate_sections_prefix [of pre] by simp

subsection \<open>Removing numbers and citations\<close>

lemma tokenize_from_token:
  "list_all (\<lambda>c. \<not> is_space c) t \<Longrightarrow> tokenize_from cur (t @ rest) = tokenize_from (cur @ t) rest"
  by (induction t arbitrary: cur) simp_all

lemma tokenize_from_tokens:
  "list_all (\<lambda>c. \<not> is_space c) cur \<Longrightarrow> list_all spaceless (tokenize_from cur s)"
  by (induction cur s rule: tokenize_from.induct) (auto simp: spaceless_def)

lemma tokenize_tokens: "list_all spaceless (tokenize s)"
  by (simp add: tokenize_def tokenize_from_tokens)

lemma tokenize_join_space:
  "list_all spaceless ts \<Longrightarrow> tokenize (join_space ts) = ts"
proof (induction ts rule: join_space.induct)
  case 1
  then show ?case by (simp add: tokenize_def)
next
  case (2 t)
  then have "tokenize_from [] (t @ []) = tokenize_from ([] @ t) []"
    by (intro tokenize_from_token) (simp add: spaceless_def)
  with 2 show ?case by (simp add: tokenize_def spaceless_def)
next
  case (3 t u ts)
  then have t: "list_all (\<lambda>c. \<not> is_space c) t" "t \<noteq> []" by (simp_all add: spaceless_def)
  have "tokenize_from [] (t @ CHR '' '' # join_space (u # ts))
      = tokenize_from ([] @ t) (CHR '' '' # join_space (u # ts))"
    using t(1) by (rule tokenize_from_token)
  also have "\<dots> = t # tokenize_from [] (join_space (u # ts))"
    using t(2) by (simp add: is_space_def)
  finally show ?case using 3 by (simp add: tokenize_def)
qed

lemma remove_numbers_idem: "remove_numbers (remove_numbers s) = remove_numbers s"
proof -
  let ?ts = "filter (\<lambda>token. \<not> isnumeric token) (tokenize s)"
  have "list_all spaceless ?ts"
    using tokenize_tokens [of s] by (simp add: list_all_iff)
  then have "tokenize (join_space ?ts) = ?ts" by (rule tokenize_join_space)
  then show ?thesis by (simp add: remove_numbers_def)
qed

text \<open>
  C5, as stated: steps 3 and 4 together are idempotent. They are not: deleting a
  citation leaves the two spaces around it, and cleaning again rejoins the tokens with
  one space.
\<close>

theorem clean_tokens_not_idempotent:
  "clean_tokens (clean_tokens ''a [1] b'') \<noteq> clean_tokens ''a [1] b''"
  by (simp add: clean_tokens_def remove_numbers_def tokenize_def isnumeric_def
      is_space_def is_digit_def)

text \<open>
  C5, amended: step 3 alone (tokenize, drop the numeric tokens, rejoin) is idempotent,
  and steps 3 and 4 together leave their own output unchanged whenever step 4 found no
  citation to delete in the rejoined text.
\<close>

theorem clean_tokens_idempotent_without_citation:
  "remove_numbers (remove_numbers s) = remove_numbers s
   \<and> (re_sub_citation (remove_numbers s) = remove_numbers s
      \<longrightarrow> clean_tokens (clean_tokens s) = clean_tokens s)"
  by (auto simp: clean_tokens_def remove_numbers_idem)

theorem clean_tokens_idempotent_without_citation_witness:
  "re_sub_citation (remove_numbers ''a 12 b'') = remove_numbers ''a 12 b''
   \<and> clean_tokens (clean_tokens ''a 12 b'') = clean_tokens ''a 12 b''"
proof -
  have h: "re_sub_citation (remove_numbers ''a 12 b'') = remove_numbers ''a 12 b''"
    by (simp add: remove_numbers_def tokenize_def isnumeric_def is_space_def is_digit_def)
  from clean_tokens_idempotent_without_citation [of "''a 12 b''"] h
  have "clean_tokens (clean_tokens ''a 12 b'') = clean_tokens ''a 12 b''" by blast
  with h show ?thesis by blast
qed

section \<open>Properties of pass 1\<close>

subsection \<open>The records that a harvest writes\<close>

lemma records_append: "records (f @ g) = records f @ records g"
  by (induction f rule: records.induct) simp_all

lemma collect_revisions_data_append:
  "collect_revisions_data (xs @ ys) = collect_revisions_data xs @ collect_revisions_data ys"
  by (induction xs) simp_all

lemma collect_revisions_data_filter:
  "collect_revisions_data revs =
     map (\<lambda>r. \<lparr>timestamp = the (rev_timestamp r), content = the (rev_star r)\<rparr>)
       (filter has_required_keys revs)"
  by (induction revs) simp_all

lemma write_revisions_ok:
  "list_all (\<lambda>r. \<not> isl (strptime (timestamp r))) rs \<Longrightarrow>
   snd (write_revisions mk f rs) = Inr ()
   \<and> records (fst (write_revisions mk f rs)) = records f @ map (persisted mk) rs"
proof (induction rs arbitrary: f)
  case Nil
  then show ?case by simp
next
  case (Cons r rs)
  then obtain dt where dt: "strptime (timestamp r) = Inr dt"
    by (cases "strptime (timestamp r)") auto
  from Cons.prems have rs: "list_all (\<lambda>r. \<not> isl (strptime (timestamp r))) rs" by simp
  show ?case
    using Cons.IH [OF rs] dt
    by (simp add: Let_def records_append persisted_def)
qed

lemma has_page_Inr:
  "has_page reply \<Longrightarrow> \<exists>data revs. reply = Inr data \<and> first_page_revisions data = Inr revs"
proof -
  assume h: "has_page reply"
  then obtain data where d: "reply = Inr data" by (cases reply) (auto simp: has_page_def)
  with h have "\<not> isl (first_page_revisions data)" by (simp add: has_page_def)
  then obtain revs where "first_page_revisions data = Inr revs"
    by (cases "first_page_revisions data") auto
  with d show ?thesis by blast
qed

lemma harvest_loop_ok:
  "complete_harvest replies \<Longrightarrow> api_timestamps replies \<Longrightarrow>
   snd (harvest_loop mk replies rv n f)
     = Inr (n + length (collect_revisions_data (all_revisions replies)))
   \<and> records (fst (harvest_loop mk replies rv n f))
     = records f @ map (persisted mk) (collect_revisions_data (all_revisions replies))"
proof (induction replies arbitrary: rv n f rule: complete_harvest.induct)
  case 1
  then show ?case by simp
next
  case (2 reply)
  then have "has_page reply" and l: "is_last reply" by simp_all
  then obtain data revs where d0: "reply = Inr data" "first_page_revisions data = Inr revs"
    using has_page_Inr by blast
  with l have d: "reply = Inr data" "first_page_revisions data = Inr revs" "continue data = None"
    by (simp_all add: is_last_def)
  from 2 d have ts: "list_all (\<lambda>r. \<not> isl (strptime (timestamp r))) (collect_revisions_data revs)"
    by (simp add: api_timestamps_def all_revisions_def)
  obtain f1 where w: "write_revisions mk f (collect_revisions_data revs) = (f1, Inr ())"
    using write_revisions_ok [OF ts, of mk f] by (cases "write_revisions mk f (collect_revisions_data revs)") auto
  have r1: "records f1 = records f @ map (persisted mk) (collect_revisions_data revs)"
    using write_revisions_ok [OF ts, of mk f] w by simp
  show ?case using d w r1
    by (simp add: Let_def all_revisions_def records_append)
next
  case (3 reply r2 replies)
  then have "has_page reply" and c: "continues reply" by simp_all
  then obtain data revs where d0: "reply = Inr data" "first_page_revisions data = Inr revs"
    using has_page_Inr by blast
  with c obtain token where t: "continue data = Some (Some token)"
    by (auto simp: continues_def split: option.splits)
  note d = d0 t
  from "3.prems" d have ts: "list_all (\<lambda>r. \<not> isl (strptime (timestamp r))) (collect_revisions_data revs)"
    and ts': "api_timestamps (r2 # replies)"
    by (simp_all add: api_timestamps_def all_revisions_def collect_revisions_data_append)
  from "3.prems" have ch: "complete_harvest (r2 # replies)" by simp
  obtain f1 where w: "write_revisions mk f (collect_revisions_data revs) = (f1, Inr ())"
    using write_revisions_ok [OF ts, of mk f] by (cases "write_revisions mk f (collect_revisions_data revs)") auto
  have r1: "records f1 = records f @ map (persisted mk) (collect_revisions_data revs)"
    using write_revisions_ok [OF ts, of mk f] w by simp
  have ar: "all_revisions (reply # r2 # replies) = revs @ all_revisions (r2 # replies)"
    using d by (simp add: all_revisions_def)
  show ?case
    using "3.IH" [OF ch ts', of "Some token" "n + length (collect_revisions_data revs)"
        "f1 @ [Wr '',\<newline>'']"] d w r1
    unfolding ar
    by (simp add: Let_def records_append collect_revisions_data_append)
qed

lemmas timestamp_eval =
  strptime_def field_def directive_m_def directive_d_def directive_H_def directive_M_def
  directive_S_def number_def is_digit_def make_datetime_def days_in_month_def is_leap_def
  wall_seconds_def toordinal_def days_before_year_def days_before_month_def upt_rec
  timestamp_of_def

text \<open>
  C1: when the server answers every request with a page and ends the history with a
  page that has no continuation, and the timestamps of the complete revisions are in
  the format of the API, the harvest ends without an exception; it has written one
  record for each revision that has both its timestamp and its content, in the order
  of the responses, and its count is their number. The revisions that lack a key leave
  no record and do not stop the harvest.
\<close>

theorem harvest_persists_complete_revisions:
  assumes "complete_harvest replies" and "api_timestamps replies"
  shows "snd (get_all_revision_ids mktime replies)
           = Inr (length (filter has_required_keys (all_revisions replies)))
       \<and> records (fst (get_all_revision_ids mktime replies))
           = map (\<lambda>r. persisted mktime
                    \<lparr>timestamp = the (rev_timestamp r), content = the (rev_star r)\<rparr>)
               (filter has_required_keys (all_revisions replies))
       \<and> map content (records (fst (get_all_revision_ids mktime replies)))
           = map (\<lambda>r. the (rev_star r)) (filter has_required_keys (all_revisions replies))"
  using harvest_loop_ok [OF assms, of mktime None 0 "[Wr ''[\<newline>'']"]
  by (simp add: get_all_revision_ids_def collect_revisions_data_filter persisted_def o_def)

theorem harvest_persists_complete_revisions_witness:
  "complete_harvest two_pages \<and> api_timestamps two_pages
   \<and> snd (get_all_revision_ids (\<lambda>t. t) two_pages) = Inr 2
   \<and> map content (records (fst (get_all_revision_ids (\<lambda>t. t) two_pages))) = [''a'', ''b'']"
proof -
  have h1: "complete_harvest two_pages"
    by (simp add: two_pages_def has_page_def continues_def is_last_def first_page_revisions_def)
  have h2: "api_timestamps two_pages"
    by (simp add: two_pages_def api_timestamps_def all_revisions_def first_page_revisions_def
        has_required_keys_def timestamp_eval)
  have f: "filter has_required_keys (all_revisions two_pages)
      = [\<lparr>rev_timestamp = Some ''2020-01-01T00:00:00Z'', rev_star = Some ''a''\<rparr>,
         \<lparr>rev_timestamp = Some ''2020-01-02T00:00:00Z'', rev_star = Some ''b''\<rparr>]"
    by (simp add: two_pages_def all_revisions_def first_page_revisions_def has_required_keys_def)
  from harvest_persists_complete_revisions [OF h1 h2, of "\<lambda>t. t"]
  have "snd (get_all_revision_ids (\<lambda>t. t) two_pages) = Inr 2
      \<and> map content (records (fst (get_all_revision_ids (\<lambda>t. t) two_pages))) = [''a'', ''b'']"
    unfolding f by (simp add: persisted_def)
  with h1 h2 show ?thesis by blast
qed

subsection \<open>The framing of the array\<close>

lemma lex_file_append: "lex_file (f @ g) = lex_file f @ lex_file g"
  by (induction f rule: lex_file.induct) simp_all

lemma after_value_sep_values: "after_value (sep_values rs @ [JClose])"
  by (induction rs) (simp_all add: sep_values_def)

lemma json_array_values: "json_array (JOpen # JValue r # sep_values rs @ [JClose])"
  by (simp add: after_value_sep_values)

lemma sep_values_append: "sep_values (xs @ ys) = sep_values xs @ sep_values ys"
  by (simp add: sep_values_def)

lemma write_revisions_tokens:
  "list_all (\<lambda>r. \<not> isl (strptime (timestamp r))) (r # rs) \<Longrightarrow>
   lex_file (fst (write_revisions mk f (r # rs)))
     = lex_file f @ JValue (persisted mk r) # sep_values (map (persisted mk) rs)"
proof (induction rs arbitrary: f r)
  case Nil
  then obtain dt where "strptime (timestamp r) = Inr dt"
    by (cases "strptime (timestamp r)") auto
  then show ?case
    by (simp add: Let_def lex_file_append persisted_def sep_values_def)
next
  case (Cons r' rs)
  then obtain dt where dt: "strptime (timestamp r) = Inr dt"
    by (cases "strptime (timestamp r)") auto
  from Cons.prems have rs: "list_all (\<lambda>r. \<not> isl (strptime (timestamp r))) (r' # rs)" by simp
  have "fst (write_revisions mk f (r # r' # rs))
      = fst (write_revisions mk (f @ [Dump (persisted mk r), Wr '',\<newline>'']) (r' # rs))"
    using dt by (simp add: Let_def persisted_def del: write_revisions.simps(2)
        add: write_revisions.simps(2) [of mk f r "r' # rs"])
  then show ?case
    using Cons.IH [OF rs, of "f @ [Dump (persisted mk r), Wr '',\<newline>'']"]
    by (simp add: lex_file_append sep_values_def)
qed

lemma harvest_loop_continue:
  "first_page_revisions data = Inr revs \<Longrightarrow>
   write_revisions mk f (collect_revisions_data revs) = (f1, Inr ()) \<Longrightarrow>
   continue data = Some (Some token) \<Longrightarrow>
   harvest_loop mk (Inr data # replies) rv n f
     = harvest_loop mk replies (Some token) (n + length (collect_revisions_data revs))
         (f1 @ [Wr '',\<newline>''])"
  by (simp add: Let_def)

lemma harvest_loop_last:
  "first_page_revisions data = Inr revs \<Longrightarrow>
   write_revisions mk f (collect_revisions_data revs) = (f1, Inr ()) \<Longrightarrow>
   continue data = None \<Longrightarrow>
   harvest_loop mk (Inr data # replies) rv n f
     = (f1 @ [Wr ''\<newline>]''], Inr (n + length (collect_revisions_data revs)))"
  by (simp add: Let_def)

lemma harvest_loop_tokens:
  "complete_harvest replies \<Longrightarrow> api_timestamps replies \<Longrightarrow> no_empty_page replies \<Longrightarrow>
   \<exists>r rs. lex_file (fst (harvest_loop mk replies rv n f))
     = lex_file f @ JValue r # sep_values rs @ [JClose]"
proof (induction replies arbitrary: rv n f rule: complete_harvest.induct)
  case 1
  then show ?case by simp
next
  case (2 reply)
  then have "has_page reply" and l: "is_last reply" by simp_all
  then obtain data revs where d0: "reply = Inr data" "first_page_revisions data = Inr revs"
    using has_page_Inr by blast
  with l have d: "reply = Inr data" "first_page_revisions data = Inr revs" "continue data = None"
    by (simp_all add: is_last_def)
  from 2 d obtain r rs where rr: "collect_revisions_data revs = r # rs"
    by (cases "collect_revisions_data revs") (auto simp: no_empty_page_def)
  from 2 d rr have ts: "list_all (\<lambda>r. \<not> isl (strptime (timestamp r))) (r # rs)"
    by (simp add: api_timestamps_def all_revisions_def)
  have s: "snd (write_revisions mk f (r # rs)) = Inr ()"
    using write_revisions_ok [OF ts] by blast
  obtain f1 where w: "write_revisions mk f (r # rs) = (f1, Inr ())"
    using s by (cases "write_revisions mk f (r # rs)") auto
  have "lex_file f1 = lex_file f @ JValue (persisted mk r) # sep_values (map (persisted mk) rs)"
    using write_revisions_tokens [OF ts, of mk f] w by simp
  moreover have "harvest_loop mk [reply] rv n f
      = (f1 @ [Wr ''\<newline>]''], Inr (n + length (collect_revisions_data revs)))"
    unfolding d(1) using d(2) w d(3) unfolding rr [symmetric] by (rule harvest_loop_last)
  ultimately have "lex_file (fst (harvest_loop mk [reply] rv n f))
      = lex_file f @ JValue (persisted mk r) # sep_values (map (persisted mk) rs) @ [JClose]"
    by (simp add: lex_file_append)
  then show ?case by blast
next
  case (3 reply r2 replies)
  then have "has_page reply" and c: "continues reply" by simp_all
  then obtain data revs where d0: "reply = Inr data" "first_page_revisions data = Inr revs"
    using has_page_Inr by blast
  with c obtain token where t: "continue data = Some (Some token)"
    by (auto simp: continues_def split: option.splits)
  note d = d0 t
  from "3.prems" d obtain r rs where rr: "collect_revisions_data revs = r # rs"
    by (cases "collect_revisions_data revs") (auto simp: no_empty_page_def)
  from "3.prems" d rr have ts: "list_all (\<lambda>r. \<not> isl (strptime (timestamp r))) (r # rs)"
    and ts': "api_timestamps (r2 # replies)"
    by (simp_all add: api_timestamps_def all_revisions_def collect_revisions_data_append)
  from "3.prems" have ch: "complete_harvest (r2 # replies)"
    and ne: "no_empty_page (r2 # replies)" by (simp_all add: no_empty_page_def)
  have s: "snd (write_revisions mk f (r # rs)) = Inr ()"
    using write_revisions_ok [OF ts] by blast
  obtain f1 where w: "write_revisions mk f (r # rs) = (f1, Inr ())"
    using s by (cases "write_revisions mk f (r # rs)") auto
  have l1: "lex_file f1 = lex_file f @ JValue (persisted mk r) # sep_values (map (persisted mk) rs)"
    using write_revisions_tokens [OF ts, of mk f] w by simp
  obtain r' rs' where ih: "lex_file (fst (harvest_loop mk (r2 # replies) (Some token)
        (n + length (collect_revisions_data revs)) (f1 @ [Wr '',\<newline>''])))
      = lex_file (f1 @ [Wr '',\<newline>'']) @ JValue r' # sep_values rs' @ [JClose]"
    using "3.IH" [OF ch ts' ne] by blast
  have step: "harvest_loop mk (reply # r2 # replies) rv n f
      = harvest_loop mk (r2 # replies) (Some token) (n + length (collect_revisions_data revs))
          (f1 @ [Wr '',\<newline>''])"
    unfolding d(1) using d(2) w d(3) unfolding rr [symmetric] by (rule harvest_loop_continue)
  have "lex_file (fst (harvest_loop mk (reply # r2 # replies) rv n f))
      = lex_file f @ JValue (persisted mk r) # sep_values (map (persisted mk) rs @ r' # rs') @ [JClose]"
    unfolding step ih l1 lex_file_append
    by (simp add: sep_values_def)
  then show ?case by blast
qed

lemma harvest_well_formed:
  assumes "complete_harvest replies" "api_timestamps replies" "no_empty_page replies"
  shows "json_array (lex_file (fst (get_all_revision_ids mk replies)))"
proof -
  obtain r rs where "lex_file (fst (harvest_loop mk replies None 0 [Wr ''[\<newline>'']))
      = lex_file [Wr ''[\<newline>''] @ JValue r # sep_values rs @ [JClose]"
    using harvest_loop_tokens [OF assms] by blast
  then show ?thesis
    by (simp add: get_all_revision_ids_def after_value_sep_values)
qed

text \<open>
  C7: the file of a harvest that ended normally is a well-formed array. The code writes
  the separator after every page that has a continuation, also when the page, or the
  one that follows, wrote no record: with a first page whose only revision lacks its
  content the file starts \<open>[ ,\<close> and is not a well-formed array.
\<close>

theorem empty_page_breaks_array:
  "get_all_revision_ids (\<lambda>t. t) empty_first_page =
     ([Wr ''[\<newline>'', Wr '',\<newline>'', Dump \<lparr>timestamp = 1577923200, content = ''b''\<rparr>,
       Wr ''\<newline>]''], Inr 1)
   \<and> lex_file (fst (get_all_revision_ids (\<lambda>t. t) empty_first_page))
       = [JOpen, JComma, JValue \<lparr>timestamp = 1577923200, content = ''b''\<rparr>, JClose]
   \<and> \<not> json_array (lex_file (fst (get_all_revision_ids (\<lambda>t. t) empty_first_page)))"
  by (simp add: empty_first_page_def get_all_revision_ids_def first_page_revisions_def
      has_required_keys_def timestamp_eval)

section \<open>Properties of pass 2\<close>

subsection \<open>The worker pool\<close>

lemma gather_Some: "gather (map Some rs) = in_order rs"
  by (induction rs rule: in_order.induct) simp_all

lemma foldl_store:
  "set js \<subseteq> {..<length xs} \<Longrightarrow>
   foldl (\<lambda>futures i. futures[i := g i]) xs js
     = map (\<lambda>j. if j \<in> set js then g j else xs ! j) [0..<length xs]"
proof (induction js arbitrary: xs)
  case Nil
  then show ?case by (simp add: map_nth)
next
  case (Cons i js)
  then have "set js \<subseteq> {..<length (xs[i := g i])}" and i: "i < length xs" by simp_all
  from Cons.IH [OF this(1)] i show ?case
    by (auto simp: nth_list_update)
qed

lemma set_completion_order: "set (completion_order n order) = {..<n}"
  by (auto simp: completion_order_def)

lemma run_workers_all:
  fixes fn :: "'a \<Rightarrow> error + 'b"
  shows "run_workers fn tasks order = map Some (map fn tasks)"
proof -
  let ?n = "length tasks"
  have "set (completion_order ?n order) \<subseteq> {..<length (replicate ?n (None :: (error + 'b) option))}"
    by (simp add: set_completion_order)
  from foldl_store [OF this, of "\<lambda>i. Some (fn (tasks ! i))"]
  have "run_workers fn tasks order = map (\<lambda>j. Some (fn (tasks ! j))) [0..<?n]"
    by (simp add: run_workers_def set_completion_order)
  also have "\<dots> = map Some (map fn (map ((!) tasks) [0..<?n]))" by simp
  finally show ?thesis by (simp only: map_nth)
qed

lemma executor_map_in_order: "executor_map fn tasks order = in_order (map fn tasks)"
  unfolding executor_map_def run_workers_all by (rule gather_Some)

lemma in_order_total: "in_order (map (\<lambda>x. Inr (g x)) xs) = Inr (map g xs)"
  by (induction xs) simp_all

text \<open>
  C3: whatever the order in which the workers complete the tasks of a chunk, the pool
  returns what cleaning the revisions one after the other, in the order of the chunk
  sorted by timestamp, returns: the first exception in that order, or the cleaned
  revisions, one for each revision of the chunk. The sorted chunk is ordered by
  timestamp and holds the revisions of the chunk, each as often as the chunk does.
\<close>

theorem pool_returns_sorted_chunk_cleaned:
  "executor_map (clean_revision strip_code) (process_chunk chunk) order
     = in_order (map (clean_revision strip_code)
         (map (\<lambda>entry. (timestamp entry, content entry)) (sort_key timestamp chunk)))
   \<and> executor_map (clean_revision (\<lambda>text. Inr (parse text))) (process_chunk chunk) order
     = Inr (map (\<lambda>entry. (timestamp entry, clean_doc (parse (content entry))))
         (sort_key timestamp chunk))
   \<and> sorted (map fst (process_chunk chunk))
   \<and> mset (process_chunk chunk) = mset (map (\<lambda>entry. (timestamp entry, content entry)) chunk)"
proof -
  have "map (clean_revision (\<lambda>text. Inr (parse text))) (process_chunk chunk)
      = map (\<lambda>x. Inr ((\<lambda>entry. (timestamp entry, clean_doc (parse (content entry)))) x))
          (sort_key timestamp chunk)"
    by (simp add: process_chunk_def clean_revision_def)
  then have "in_order (map (clean_revision (\<lambda>text. Inr (parse text))) (process_chunk chunk))
      = Inr (map (\<lambda>entry. (timestamp entry, clean_doc (parse (content entry))))
          (sort_key timestamp chunk))"
    by (simp only: in_order_total)
  moreover have "sorted (map fst (process_chunk chunk))"
    by (simp add: process_chunk_def o_def)
  ultimately show ?thesis
    by (simp add: executor_map_in_order process_chunk_def)
qed

text \<open>
  C9: the sort of \<open>process_chunk\<close> is stable. For every timestamp, the revisions of the
  sorted chunk that carry it are the revisions of the chunk that carry it, in the order
  they have in the chunk.
\<close>

theorem process_chunk_stable:
  "filter (\<lambda>tc. fst tc = k) (process_chunk chunk)
     = map (\<lambda>entry. (timestamp entry, content entry)) (filter (\<lambda>entry. timestamp entry = k) chunk)"
proof -
  have "filter (\<lambda>tc. fst tc = k) (process_chunk chunk)
      = map (\<lambda>entry. (timestamp entry, content entry))
          (filter (\<lambda>entry. timestamp entry = k) (sort_key timestamp chunk))"
    by (simp add: process_chunk_def filter_map o_def)
  then show ?thesis by (simp only: sort_key_stable)
qed

end
